theory Spec2Isabelle
  imports Main "HOL-Library.Word" "HOL-Library.Monad_Syntax"
begin

section \<open>The pixelation filter of the ImagePixelator component\<close>

text \<open>
  The component keeps the loaded image, draws it on a hidden canvas, reads the canvas back
  once into an RGBA byte array and then walks the image in steps of \<open>pixelSize\<close>,
  painting one opaque rectangle per block with the colour read at the block's top-left
  corner. The development below embeds that procedure (the function \<open>pixelateImage\<close> of
  the component) together with the few canvas operations it calls.
\<close>

subsection \<open>Rasters\<close>

type_synonym byte = "8 word"

text \<open>
  An \<open>ImageData\<close>: \<open>width\<close>, \<open>height\<close> and the flat array \<open>data\<close> of
  \<open>4 * width * height\<close> bytes, four per pixel (red, green, blue, alpha), rows first.
  A canvas bitmap and a decoded image are rasters of the same shape.
\<close>

record ImageData =
  width :: nat
  height :: nat
  data :: "byte list"

record pixel =
  red :: byte
  green :: byte
  blue :: byte
  alpha :: byte

definition well_formed :: "ImageData \<Rightarrow> bool" where
  "well_formed img = (length (data img) = 4 * width img * height img)"

definition valid_source :: "ImageData \<Rightarrow> bool" where
  "valid_source img = (0 < width img \<and> 0 < height img \<and> well_formed img)"

definition pixel_at :: "ImageData \<Rightarrow> nat \<Rightarrow> nat \<Rightarrow> pixel" where
  "pixel_at img x y =
     (let k = 4 * (y * width img + x)
      in \<lparr>red = data img ! k, green = data img ! (k + 1),
          blue = data img ! (k + 2), alpha = data img ! (k + 3)\<rparr>)"

text \<open>Reading a typed array at a number: outside the array the value is \<open>undefined\<close>.\<close>

definition typed_get :: "byte list \<Rightarrow> int \<Rightarrow> byte option" where
  "typed_get d i = (if 0 \<le> i \<and> i < int (length d) then Some (d ! nat i) else None)"

subsection \<open>The canvas operations used by the component\<close>

datatype error =
    IndexSizeError \<comment> \<open>thrown by \<open>getImageData\<close> for a rectangle of zero area\<close>
  | InvalidParameter \<comment> \<open>named by the specification; no statement of the component throws it\<close>

type_synonym colour = "byte \<times> byte \<times> byte"

text \<open>
  The drawing context: the canvas bitmap, the current fill style, and a record of the
  indices at which the byte array was read (kept only to state where the reads fall).
\<close>

record ctx2d =
  bitmap :: ImageData
  fillStyle :: colour
  reads :: "int list"

text \<open>Assigning \<open>canvas.width\<close> and \<open>canvas.height\<close> clears the bitmap to transparent black.\<close>

definition resize :: "nat \<Rightarrow> nat \<Rightarrow> ImageData \<Rightarrow> ImageData" where
  "resize w h cv = \<lparr>width = w, height = h, data = replicate (4 * w * h) 0\<rparr>"

text \<open>
  A canvas keeps its pixels with the colour premultiplied by alpha, eight bits a channel,
  and hands them out (\<open>getImageData\<close>, \<open>toDataURL\<close>) with the colour divided by alpha
  again, both rounded to the nearest whole number. A pixel of alpha 255 comes back as it
  went in; a translucent one comes back with rounded colour, and one of alpha 0 as
  transparent black. The bitmap of the model holds the pixels as they are handed out.
\<close>

definition premultiply :: "byte \<Rightarrow> byte \<Rightarrow> byte" where
  "premultiply c a = of_nat ((2 * unat c * unat a + 255) div 510)"

definition unpremultiply :: "byte \<Rightarrow> byte \<Rightarrow> byte" where
  "unpremultiply p a =
     (if a = 0 then 0 else of_nat (min 255 ((510 * unat p + unat a) div (2 * unat a))))"

definition round_trip :: "byte \<Rightarrow> byte \<Rightarrow> byte" where
  "round_trip c a = unpremultiply (premultiply c a) a"

text \<open>A pixel as the canvas hands it out after it was drawn on a cleared bitmap.\<close>

definition canvas_pixel :: "pixel \<Rightarrow> pixel" where
  "canvas_pixel p =
     \<lparr>red = round_trip (red p) (alpha p), green = round_trip (green p) (alpha p),
      blue = round_trip (blue p) (alpha p), alpha = alpha p\<rparr>"

text \<open>
  \<open>drawImage(img, 0, 0)\<close> on a cleared canvas: every canvas pixel that the image covers
  takes the image's pixel, stored premultiplied.
\<close>

definition drawImage :: "ImageData \<Rightarrow> ImageData \<Rightarrow> ImageData" where
  "drawImage img cv =
     cv\<lparr>data :=
        map (\<lambda>i. let px = (i div 4) mod width cv; py = (i div 4) div width cv
                 in if px < width img \<and> py < height img
                    then (let k = 4 * (py * width img + px); a = data img ! (k + 3)
                          in if i mod 4 = 3 then a
                             else round_trip (data img ! (k + i mod 4)) a)
                    else data cv ! i)
            [0..<length (data cv)]\<rparr>"

text \<open>
  \<open>getImageData(0, 0, canvas.width, canvas.height)\<close>: a copy of the whole bitmap. This is
  the buffer \<open>imageData\<close> whose bytes the loops sample.
\<close>

definition getImageData :: "ImageData \<Rightarrow> error + ImageData" where
  "getImageData cv =
     (if width cv = 0 \<or> height cv = 0 then Inl IndexSizeError else Inr cv)"

text \<open>
  Assigning the string \<open>rgb(r, g, b)\<close> to \<open>fillStyle\<close>: a channel that is
  \<open>undefined\<close> makes the string no colour, and the assignment is ignored.
\<close>

definition set_fillStyle :: "byte option \<Rightarrow> byte option \<Rightarrow> byte option \<Rightarrow> colour \<Rightarrow> colour" where
  "set_fillStyle r g b old =
     (case (r, g, b) of (Some r', Some g', Some b') \<Rightarrow> (r', g', b') | _ \<Rightarrow> old)"

definition channel :: "colour \<Rightarrow> nat \<Rightarrow> byte" where
  "channel c k =
     (case c of (r, g, b) \<Rightarrow> if k = 0 then r else if k = 1 then g else if k = 2 then b else 255)"

definition inside_rect :: "int \<Rightarrow> int \<Rightarrow> int \<Rightarrow> int \<Rightarrow> int \<Rightarrow> int \<Rightarrow> bool" where
  "inside_rect x y w h px py =
     (min x (x + w) \<le> px \<and> px < max x (x + w) \<and> min y (y + h) \<le> py \<and> py < max y (y + h))"

text \<open>
  \<open>fillRect(x, y, w, h)\<close> with an opaque fill style and whole-number arguments: the
  pixels of the bitmap that lie in the rectangle take the colour with alpha 255; the
  rectangle is clipped to the bitmap, and a rectangle of zero width or height paints nothing.
\<close>

definition fillRect :: "colour \<Rightarrow> int \<Rightarrow> int \<Rightarrow> int \<Rightarrow> int \<Rightarrow> ImageData \<Rightarrow> ImageData" where
  "fillRect c x y w h cv =
     cv\<lparr>data :=
        map (\<lambda>i. if inside_rect x y w h (int ((i div 4) mod width cv)) (int ((i div 4) div width cv))
                 then channel c (i mod 4)
                 else data cv ! i)
            [0..<length (data cv)]\<rparr>"

subsection \<open>The pixelation loops\<close>

text \<open>The body of the inner loop, for the block whose top-left corner is \<open>(x, y)\<close>.\<close>

definition block_body :: "byte list \<Rightarrow> int \<Rightarrow> int \<Rightarrow> int \<Rightarrow> ctx2d \<Rightarrow> ctx2d" where
  "block_body d pixelSize y x st =
     (let pixelIndex = (y * int (width (bitmap st)) + x) * 4;
          r = typed_get d pixelIndex;
          g = typed_get d (pixelIndex + 1);
          b = typed_get d (pixelIndex + 2);
          st1 = st\<lparr>fillStyle := set_fillStyle r g b (fillStyle st),
                   reads := reads st @ [pixelIndex, pixelIndex + 1, pixelIndex + 2]\<rparr>
      in st1\<lparr>bitmap := fillRect (fillStyle st1) x y pixelSize pixelSize (bitmap st1)\<rparr>)"

text \<open>
  \<open>for (let x = 0; x < canvas.width; x += pixelSize)\<close>, entered at \<open>x\<close>. The loop
  need not end, so its result is an option: \<open>None\<close> is a loop that runs forever.
\<close>

partial_function (option) x_loop :: "byte list \<Rightarrow> int \<Rightarrow> int \<Rightarrow> int \<Rightarrow> ctx2d \<Rightarrow> ctx2d option" where
  "x_loop d pixelSize y x st =
     (if x < int (width (bitmap st))
      then x_loop d pixelSize y (x + pixelSize) (block_body d pixelSize y x st)
      else Some st)"

declare x_loop.simps [code]

text \<open>\<open>for (let y = 0; y < canvas.height; y += pixelSize)\<close>, entered at \<open>y\<close>.\<close>

partial_function (option) y_loop :: "byte list \<Rightarrow> int \<Rightarrow> int \<Rightarrow> ctx2d \<Rightarrow> ctx2d option" where
  "y_loop d pixelSize y st =
     (if y < int (height (bitmap st))
      then x_loop d pixelSize y 0 st \<bind> (\<lambda>st'. y_loop d pixelSize (y + pixelSize) st')
      else Some st)"

declare y_loop.simps [code]

text \<open>
  The canvas work of \<open>pixelateImage\<close>: size the canvas to the image, draw the image, read
  the bitmap back, run the loops. \<open>cv\<close> is the canvas as the previous call left it.
\<close>

definition render :: "ImageData \<Rightarrow> ImageData \<Rightarrow> int \<Rightarrow> (error + ctx2d) option" where
  "render cv originalImage pixelSize =
     (let cv1 = resize (width originalImage) (height originalImage) cv;
          cv2 = drawImage originalImage cv1
      in case getImageData cv2 of
           Inl e \<Rightarrow> Some (Inl e)
         | Inr imageData \<Rightarrow>
             map_option Inr
               (y_loop (data imageData) pixelSize 0
                  \<lparr>bitmap = cv2, fillStyle = (0, 0, 0), reads = []\<rparr>))"

subsection \<open>The component\<close>

text \<open>
  The state of the component that the filter touches. The data URL kept in
  \<open>pixelatedImage\<close> is a lossless encoding of the canvas, and stands here for the bitmap.
\<close>

record component =
  originalImage :: "ImageData option"
  pixelatedImage :: "ImageData option"
  pixelSize :: int
  isProcessing :: bool
  canvasRef :: ImageData

definition pixelateImage :: "component \<Rightarrow> (error + component) option" where
  "pixelateImage c =
     (case originalImage c of
        None \<Rightarrow> Some (Inr c)
      | Some img \<Rightarrow>
          map_option
            (map_sum id
               (\<lambda>st. c\<lparr>canvasRef := bitmap st, pixelatedImage := Some (bitmap st),
                        isProcessing := False\<rparr>))
            (render (canvasRef c) img (pixelSize c)))"

text \<open>The component right after an image was loaded and the slider set: a new 300 by 150 canvas.\<close>

definition loaded :: "ImageData \<Rightarrow> int \<Rightarrow> component" where
  "loaded img n =
     \<lparr>originalImage = Some img, pixelatedImage = None, pixelSize = n, isProcessing = False,
      canvasRef = resize 300 150 \<lparr>width = 0, height = 0, data = []\<rparr>\<rparr>"

text \<open>
  \<open>pixelate source blockSize\<close>: the raster the component shows after one run on a newly
  loaded image. \<open>None\<close>: the run never returns; \<open>Some (Inl e)\<close>: it throws \<open>e\<close>.
\<close>

definition pixelate :: "ImageData \<Rightarrow> int \<Rightarrow> (error + ImageData) option" where
  "pixelate source blockSize =
     map_option (map_sum id canvasRef) (pixelateImage (loaded source blockSize))"

subsection \<open>Auxiliary notions for the proofs\<close>

text \<open>
  The column and the row of the pixel that byte \<open>i\<close> of a raster of width \<open>w\<close>
  belongs to, and channel \<open>c\<close> of the colour painted for the block at \<open>(bx, by)\<close>:
  the byte of \<open>d\<close> there, or 255 for alpha.
\<close>

definition px_of :: "nat \<Rightarrow> nat \<Rightarrow> int" where
  "px_of w i = int ((i div 4) mod w)"

definition py_of :: "nat \<Rightarrow> nat \<Rightarrow> int" where
  "py_of w i = int ((i div 4) div w)"

definition sampled :: "byte list \<Rightarrow> nat \<Rightarrow> int \<Rightarrow> int \<Rightarrow> nat \<Rightarrow> byte" where
  "sampled d w bx by c = (if c = 3 then 255 else d ! nat ((by * int w + bx) * 4 + int c))"

text \<open>Every read so far fell inside the array; the bitmap has the shape \<open>w\<close> by \<open>h\<close>.\<close>

definition reads_ok :: "byte list \<Rightarrow> ctx2d \<Rightarrow> bool" where
  "reads_ok d st = (\<forall>j \<in> set (reads st). 0 \<le> j \<and> j < int (length d))"

definition shaped :: "nat \<Rightarrow> nat \<Rightarrow> ctx2d \<Rightarrow> bool" where
  "shaped w h st = (width (bitmap st) = w \<and> height (bitmap st) = h \<and> length (data (bitmap st)) = 4 * w * h)"

text \<open>
  The raster that \<open>getImageData\<close> returns once an image was drawn on the cleared canvas
  of its size.
\<close>

definition read_back :: "ImageData \<Rightarrow> ImageData" where
  "read_back img =
     img\<lparr>data :=
        map (\<lambda>i. if i mod 4 = 3 then data img ! i
                 else round_trip (data img ! i) (data img ! (4 * (i div 4) + 3)))
            [0..<length (data img)]\<rparr>"

text \<open>
  \<open>out\<close> is \<open>src\<close> with every pixel replaced by the opaque colour of the top-left
  pixel of its block, for blocks of side \<open>n\<close> laid out from \<open>(0, 0)\<close>.
\<close>

definition blocks_of :: "ImageData \<Rightarrow> int \<Rightarrow> ImageData \<Rightarrow> bool" where
  "blocks_of src n out =
     (width out = width src \<and> height out = height src \<and> well_formed out \<and>
      (\<forall>x < width src. \<forall>y < height src.
         pixel_at out x y = (pixel_at src (x - x mod nat n) (y - y mod nat n))\<lparr>alpha := 255\<rparr>))"

section \<open>Properties\<close>

subsection \<open>The canvas operations\<close>

lemma fillRect_dims [simp]:
  "width (fillRect c x y w h cv) = width cv"
  "height (fillRect c x y w h cv) = height cv"
  "length (data (fillRect c x y w h cv)) = length (data cv)"
  by (simp_all add: fillRect_def)

lemma fillRect_nth:
  "i < length (data cv) \<Longrightarrow>
   data (fillRect c x y w h cv) ! i =
     (if inside_rect x y w h (px_of (width cv) i) (py_of (width cv) i)
      then channel c (i mod 4) else data cv ! i)"
  by (simp add: fillRect_def px_of_def py_of_def)

lemma inside_rect_pos:
  "1 \<le> n \<Longrightarrow> inside_rect x y n n px py = (x \<le> px \<and> px < x + n \<and> y \<le> py \<and> py < y + n)"
  by (auto simp: inside_rect_def)

lemma index_bound:
  assumes "0 \<le> x" "x < int w" "0 \<le> y" "y < int h"
  shows "0 \<le> (y * int w + x) * 4" "(y * int w + x) * 4 + 3 < int (4 * w * h)"
proof -
  show "0 \<le> (y * int w + x) * 4" using assms by simp
  have "y + 1 \<le> int h" using assms by simp
  then have "(y + 1) * int w \<le> int h * int w"
    by (rule mult_right_mono) simp
  then have "y * int w + x < int h * int w"
    using assms by (simp add: algebra_simps)
  then show "(y * int w + x) * 4 + 3 < int (4 * w * h)"
    by (simp add: algebra_simps)
qed

lemma block_body_eq:
  assumes "0 \<le> x" "x < int w" "0 \<le> y" "y < int h" "width (bitmap st) = w"
    and "length d = 4 * w * h"
  shows "block_body d n y x st =
     \<lparr>bitmap = fillRect (sampled d w x y 0, sampled d w x y 1, sampled d w x y 2) x y n n (bitmap st),
      fillStyle = (sampled d w x y 0, sampled d w x y 1, sampled d w x y 2),
      reads = reads st @ [(y * int w + x) * 4, (y * int w + x) * 4 + 1, (y * int w + x) * 4 + 2]\<rparr>"
  using index_bound [OF assms(1-4)] assms(5,6)
  by (simp add: block_body_def Let_def typed_get_def set_fillStyle_def sampled_def)

lemma channel_sampled:
  assumes "c < 4"
  shows "channel (sampled d w x y 0, sampled d w x y 1, sampled d w x y 2) c = sampled d w x y c"
proof -
  from assms have "c = 0 \<or> c = 1 \<or> c = 2 \<or> c = 3" by arith
  then show ?thesis by (auto simp: channel_def sampled_def)
qed

lemma px_of_bounds: "0 < w \<Longrightarrow> 0 \<le> px_of w i \<and> px_of w i < int w"
  by (simp add: px_of_def)

lemma py_of_bounds: "i < 4 * w * h \<Longrightarrow> 0 \<le> py_of w i \<and> py_of w i < int h"
proof -
  assume "i < 4 * w * h"
  then have "i div 4 < h * w" by (simp add: algebra_simps)
  then have "(i div 4) div w < h" by (simp add: less_mult_imp_div_less)
  then show ?thesis by (simp add: py_of_def)
qed

lemma block_body_step:
  assumes "1 \<le> n" "0 \<le> x" "x < int w" "0 \<le> y" "y < int h" "shaped w h st"
    and "length d = 4 * w * h" "reads_ok d st"
  shows "shaped w h (block_body d n y x st)"
    and "reads_ok d (block_body d n y x st)"
    and "length (reads (block_body d n y x st)) = length (reads st) + 3"
    and "\<forall>i < 4 * w * h. data (bitmap (block_body d n y x st)) ! i =
           (if x \<le> px_of w i \<and> px_of w i < x + n \<and> y \<le> py_of w i \<and> py_of w i < y + n
            then sampled d w x y (i mod 4) else data (bitmap st) ! i)"
proof -
  have w: "width (bitmap st) = w" and len: "length (data (bitmap st)) = 4 * w * h"
    using assms(6) by (simp_all add: shaped_def)
  note eq = block_body_eq [OF assms(2-5) w assms(7), of n]
  show "shaped w h (block_body d n y x st)"
    using assms(6) by (simp add: eq shaped_def)
  show "reads_ok d (block_body d n y x st)"
    using assms(8) index_bound [OF assms(2-5)] assms(7)
    by (auto simp: eq reads_ok_def)
  show "length (reads (block_body d n y x st)) = length (reads st) + 3"
    by (simp add: eq)
  show "\<forall>i < 4 * w * h. data (bitmap (block_body d n y x st)) ! i =
           (if x \<le> px_of w i \<and> px_of w i < x + n \<and> y \<le> py_of w i \<and> py_of w i < y + n
            then sampled d w x y (i mod 4) else data (bitmap st) ! i)"
    using assms(1) by (simp add: eq fillRect_nth len w inside_rect_pos channel_sampled [simplified])
qed

lemma x_loop_total:
  assumes "1 \<le> n" "0 \<le> y" "y < int h" "length d = 4 * w * h"
  shows "0 \<le> x \<Longrightarrow> shaped w h st \<Longrightarrow> reads_ok d st \<Longrightarrow>
     \<exists>st'. x_loop d n y x st = Some st' \<and> shaped w h st' \<and> reads_ok d st' \<and>
       length (reads st) + (if x < int w then 3 else 0) \<le> length (reads st') \<and>
       (\<forall>i < 4 * w * h. data (bitmap st') ! i =
           (if x \<le> px_of w i \<and> y \<le> py_of w i \<and> py_of w i < y + n
            then sampled d w (px_of w i - (px_of w i - x) mod n) y (i mod 4)
            else data (bitmap st) ! i))"
proof (induction "nat (int w - x)" arbitrary: x st rule: less_induct)
  case less
  have w: "width (bitmap st) = w" using less.prems(2) by (simp add: shaped_def)
  show ?case
  proof (cases "x < int w")
    case False
    have "\<forall>i < 4 * w * h. \<not> x \<le> px_of w i"
    proof (intro allI impI)
      fix i assume "i < 4 * w * h"
      then have "0 < w" by (cases w) simp_all
      from px_of_bounds [OF this, of i] False show "\<not> x \<le> px_of w i" by simp
    qed
    with False less.prems w show ?thesis
      by (subst x_loop.simps) simp
  next
    case True
    let ?st1 = "block_body d n y x st"
    note bb = block_body_step [OF assms(1) less.prems(1) True assms(2,3) less.prems(2) assms(4) less.prems(3)]
    have "nat (int w - (x + n)) < nat (int w - x)" using True assms(1) by simp
    moreover have "0 \<le> x + n" using less.prems(1) assms(1) by simp
    ultimately obtain st' where st': "x_loop d n y (x + n) ?st1 = Some st'"
      "shaped w h st'" "reads_ok d st'"
      "length (reads ?st1) \<le> length (reads st')"
      "\<forall>i < 4 * w * h. data (bitmap st') ! i =
           (if x + n \<le> px_of w i \<and> y \<le> py_of w i \<and> py_of w i < y + n
            then sampled d w (px_of w i - (px_of w i - (x + n)) mod n) y (i mod 4)
            else data (bitmap ?st1) ! i)"
      using less.hyps [of "x + n" ?st1] bb(1,2) by fastforce
    have grow: "length (reads st) + (if x < int w then 3 else 0) \<le> length (reads st')"
      using st'(4) bb(3) by simp
    have run: "x_loop d n y x st = Some st'"
      using True w st'(1) by (subst x_loop.simps) simp
    have "\<forall>i < 4 * w * h. data (bitmap st') ! i =
           (if x \<le> px_of w i \<and> y \<le> py_of w i \<and> py_of w i < y + n
            then sampled d w (px_of w i - (px_of w i - x) mod n) y (i mod 4)
            else data (bitmap st) ! i)"
    proof (intro allI impI)
      fix i assume i: "i < 4 * w * h"
      let ?px = "px_of w i"
      have m1: "(?px - (x + n)) mod n = (?px - x) mod n"
        by (metis diff_diff_eq minus_mod_self2)
      have m2: "x \<le> ?px \<Longrightarrow> ?px < x + n \<Longrightarrow> (?px - x) mod n = ?px - x"
        by simp
      show "data (bitmap st') ! i =
           (if x \<le> ?px \<and> y \<le> py_of w i \<and> py_of w i < y + n
            then sampled d w (?px - (?px - x) mod n) y (i mod 4)
            else data (bitmap st) ! i)"
        using st'(5) bb(4) i assms(1) m1 m2 by auto
    qed
    with run st'(2,3) grow show ?thesis by blast
  qed
qed



lemma y_loop_total:
  assumes "1 \<le> n" "length d = 4 * w * h"
  shows "0 \<le> y \<Longrightarrow> shaped w h st \<Longrightarrow> reads_ok d st \<Longrightarrow>
     \<exists>st'. y_loop d n y st = Some st' \<and> shaped w h st' \<and> reads_ok d st' \<and>
       length (reads st) + (if y < int h \<and> 0 < w then 3 else 0) \<le> length (reads st') \<and>
       (\<forall>i < 4 * w * h. data (bitmap st') ! i =
           (if y \<le> py_of w i
            then sampled d w (px_of w i - px_of w i mod n)
                   (py_of w i - (py_of w i - y) mod n) (i mod 4)
            else data (bitmap st) ! i))"
proof (induction "nat (int h - y)" arbitrary: y st rule: less_induct)
  case less
  have h: "height (bitmap st) = h" using less.prems(2) by (simp add: shaped_def)
  show ?case
  proof (cases "y < int h")
    case False
    have "\<forall>i < 4 * w * h. \<not> y \<le> py_of w i"
      using py_of_bounds [of _ w h] False by fastforce
    with False less.prems h show ?thesis
      by (subst y_loop.simps) simp
  next
    case True
    obtain st1 where st1: "x_loop d n y 0 st = Some st1" "shaped w h st1" "reads_ok d st1"
      "length (reads st) + (if 0 < int w then 3 else 0) \<le> length (reads st1)"
      "\<forall>i < 4 * w * h. data (bitmap st1) ! i =
           (if 0 \<le> px_of w i \<and> y \<le> py_of w i \<and> py_of w i < y + n
            then sampled d w (px_of w i - (px_of w i - 0) mod n) y (i mod 4)
            else data (bitmap st) ! i)"
      using x_loop_total [OF assms(1) less.prems(1) True assms(2) _ less.prems(2,3), of 0]
      by auto
    have "nat (int h - (y + n)) < nat (int h - y)" using True assms(1) by simp
    moreover have "0 \<le> y + n" using less.prems(1) assms(1) by simp
    ultimately obtain st' where st': "y_loop d n (y + n) st1 = Some st'"
      "shaped w h st'" "reads_ok d st'"
      "length (reads st1) \<le> length (reads st')"
      "\<forall>i < 4 * w * h. data (bitmap st') ! i =
           (if y + n \<le> py_of w i
            then sampled d w (px_of w i - px_of w i mod n)
                   (py_of w i - (py_of w i - (y + n)) mod n) (i mod 4)
            else data (bitmap st1) ! i)"
      using less.hyps [of "y + n" st1] st1(2,3) by fastforce
    have grow: "length (reads st) + (if y < int h \<and> 0 < w then 3 else 0) \<le> length (reads st')"
      using st'(4) st1(4) by (simp split: if_splits)
    have run: "y_loop d n y st = Some st'"
      using True h st1(1) st'(1) by (subst y_loop.simps) simp
    have "\<forall>i < 4 * w * h. data (bitmap st') ! i =
           (if y \<le> py_of w i
            then sampled d w (px_of w i - px_of w i mod n)
                   (py_of w i - (py_of w i - y) mod n) (i mod 4)
            else data (bitmap st) ! i)"
    proof (intro allI impI)
      fix i assume i: "i < 4 * w * h"
      let ?py = "py_of w i"
      have "0 < w" using i by (cases w) simp_all
      then have px: "0 \<le> px_of w i" using px_of_bounds by blast
      have m1: "(?py - (y + n)) mod n = (?py - y) mod n"
        by (metis diff_diff_eq minus_mod_self2)
      have m2: "y \<le> ?py \<Longrightarrow> ?py < y + n \<Longrightarrow> (?py - y) mod n = ?py - y"
        by simp
      show "data (bitmap st') ! i =
           (if y \<le> ?py
            then sampled d w (px_of w i - px_of w i mod n) (?py - (?py - y) mod n) (i mod 4)
            else data (bitmap st) ! i)"
        using st'(5) st1(5) i assms(1) m1 m2 px by auto
    qed
    with run st'(2,3) grow show ?thesis by blast
  qed
qed


lemma read_back_dims [simp]:
  "width (read_back img) = width img"
  "height (read_back img) = height img"
  "length (data (read_back img)) = length (data img)"
  by (simp_all add: read_back_def)

lemma well_formed_read_back [simp]: "well_formed (read_back img) = well_formed img"
  by (simp add: well_formed_def)

lemma drawImage_cleared:
  assumes "well_formed img"
  shows "drawImage img (resize (width img) (height img) cv) = read_back img"
proof -
  let ?w = "width img" and ?h = "height img"
  let ?r = "drawImage img (resize ?w ?h cv)"
  have len: "length (data img) = 4 * ?w * ?h" using assms by (simp add: well_formed_def)
  have "data ?r = data (read_back img)"
  proof (rule nth_equalityI)
    show "length (data ?r) = length (data (read_back img))"
      by (simp add: drawImage_def resize_def len)
  next
    fix i assume "i < length (data ?r)"
    then have i: "i < 4 * ?w * ?h" by (simp add: drawImage_def resize_def)
    then have w: "0 < ?w" by (cases ?w) simp_all
    have "(i div 4) div ?w < ?h"
      using py_of_bounds [OF i] by (simp add: py_of_def)
    moreover have "4 * (i div 4) + 3 = i" if "i mod 4 = 3"
      using that by presburger
    ultimately show "data ?r ! i = data (read_back img) ! i"
      using i w by (simp add: drawImage_def resize_def read_back_def len Let_def)
  qed
  moreover have "width ?r = ?w" "height ?r = ?h"
    by (simp_all add: drawImage_def resize_def)
  ultimately show ?thesis
    by (cases img) (simp add: drawImage_def resize_def read_back_def)
qed

lemma render_total:
  assumes "valid_source img" "1 \<le> n"
  shows "\<exists>st. render cv img n = Some (Inr st) \<and> shaped (width img) (height img) st \<and>
           reads_ok (data (read_back img)) st \<and> reads st \<noteq> [] \<and>
           (\<forall>i < 4 * width img * height img. data (bitmap st) ! i =
              sampled (data (read_back img)) (width img)
                (px_of (width img) i - px_of (width img) i mod n)
                (py_of (width img) i - py_of (width img) i mod n) (i mod 4))"
proof -
  let ?w = "width img" and ?h = "height img" and ?rb = "read_back img"
  let ?st0 = "\<lparr>bitmap = ?rb, fillStyle = (0, 0, 0), reads = []\<rparr>"
  have wf: "well_formed img" and pos: "0 < ?w" "0 < ?h"
    using assms(1) by (simp_all add: valid_source_def)
  have len: "length (data ?rb) = 4 * ?w * ?h" using wf by (simp add: well_formed_def)
  have r: "render cv img n = map_option Inr (y_loop (data ?rb) n 0 ?st0)"
    using pos by (simp add: render_def drawImage_cleared [OF wf] getImageData_def Let_def)
  have "shaped ?w ?h ?st0" "reads_ok (data ?rb) ?st0"
    using len by (simp_all add: shaped_def reads_ok_def)
  from y_loop_total [OF assms(2) len _ this, of 0]
  obtain st where st: "y_loop (data ?rb) n 0 ?st0 = Some st" "shaped ?w ?h st"
    "reads_ok (data ?rb) st"
    "length (reads ?st0) + (if 0 < int ?h \<and> 0 < ?w then 3 else 0) \<le> length (reads st)"
    "\<forall>i < 4 * ?w * ?h. data (bitmap st) ! i =
        (if 0 \<le> py_of ?w i
         then sampled (data ?rb) ?w (px_of ?w i - px_of ?w i mod n)
                (py_of ?w i - (py_of ?w i - 0) mod n) (i mod 4)
         else data (bitmap ?st0) ! i)"
    by auto
  have "reads st \<noteq> []"
    using st(4) pos by auto
  moreover have "\<forall>i < 4 * ?w * ?h. data (bitmap st) ! i =
      sampled (data ?rb) ?w (px_of ?w i - px_of ?w i mod n)
        (py_of ?w i - py_of ?w i mod n) (i mod 4)"
    using st(5) by (simp add: py_of_def)
  ultimately show ?thesis using r st(1-3) by simp
qed

lemma sampled_nat:
  assumes "0 < m"
  shows "sampled d w (int x - int x mod int m) (int y - int y mod int m) c =
     (if c = 3 then 255 else d ! (4 * ((y - y mod m) * w + (x - x mod m)) + c))"
proof -
  have x: "int x - int x mod int m = int (x - x mod m)"
    by (simp add: zmod_int of_nat_diff)
  have y: "int y - int y mod int m = int (y - y mod m)"
    by (simp add: zmod_int of_nat_diff)
  have "(int a * int w + int b) * 4 + int c = int (4 * (a * w + b) + c)" for a b
    by simp
  then have "(int (y - y mod m) * int w + int (x - x mod m)) * 4 + int c =
      int (4 * ((y - y mod m) * w + (x - x mod m)) + c)" .
  then have "nat ((int (y - y mod m) * int w + int (x - x mod m)) * 4 + int c) =
      4 * ((y - y mod m) * w + (x - x mod m)) + c"
    by (simp only: nat_int)
  then show ?thesis unfolding sampled_def x y by simp
qed

lemma pixel_index:
  assumes "x < w" "y < h" "c < 4"
  shows "4 * (y * w + x) + c < 4 * w * h"
    and "px_of w (4 * (y * w + x) + c) = int x"
    and "py_of w (4 * (y * w + x) + c) = int y"
    and "(4 * (y * w + x) + c) mod 4 = c"
proof -
  have "Suc y \<le> h" using assms(2) by simp
  then have "Suc y * w \<le> h * w" by (rule mult_le_mono1)
  then have "y * w + x < w * h" using assms(1) by (simp add: algebra_simps)
  then show "4 * (y * w + x) + c < 4 * w * h" using assms(3) by simp
  have d: "(4 * (y * w + x) + c) div 4 = y * w + x" using assms(3) by simp
  show "px_of w (4 * (y * w + x) + c) = int x"
    unfolding px_of_def d using assms(1) by simp
  show "py_of w (4 * (y * w + x) + c) = int y"
    unfolding py_of_def d using assms(1) by simp
  have "(4 * k + c) mod 4 = c" for k using assms(3) by simp
  then show "(4 * (y * w + x) + c) mod 4 = c" .
qed

lemma render_blocks:
  assumes "valid_source img" "1 \<le> n"
  shows "\<exists>st. render cv img n = Some (Inr st) \<and> blocks_of (read_back img) n (bitmap st) \<and>
           reads_ok (data (read_back img)) st \<and> reads st \<noteq> []"
proof -
  let ?w = "width img" and ?h = "height img" and ?m = "nat n" and ?rb = "read_back img"
  have m: "0 < ?m" "n = int ?m" using assms(2) by simp_all
  from render_total [OF assms, of cv]
  obtain st where st: "render cv img n = Some (Inr st)" "shaped ?w ?h st"
    "reads_ok (data ?rb) st" "reads st \<noteq> []"
    and nth: "\<And>i. i < 4 * ?w * ?h \<Longrightarrow> data (bitmap st) ! i =
              sampled (data ?rb) ?w (px_of ?w i - px_of ?w i mod n)
                (py_of ?w i - py_of ?w i mod n) (i mod 4)"
    by blast
  have pix: "pixel_at (bitmap st) x y =
      (pixel_at ?rb (x - x mod ?m) (y - y mod ?m))\<lparr>alpha := 255\<rparr>"
    if xy: "x < ?w" "y < ?h" for x y
  proof -
    have b: "data (bitmap st) ! (4 * (y * ?w + x) + c) =
        (if c = 3 then 255
         else data ?rb ! (4 * ((y - y mod ?m) * ?w + (x - x mod ?m)) + c))"
      if c: "c < 4" for c
    proof -
      note pi = pixel_index [OF xy c]
      have "data (bitmap st) ! (4 * (y * ?w + x) + c) =
          sampled (data ?rb) ?w (int x - int x mod int ?m) (int y - int y mod int ?m) c"
        using nth [OF pi(1)] m(2) by (simp only: pi)
      then show ?thesis by (simp only: sampled_nat [OF m(1)])
    qed
    have w: "width (bitmap st) = ?w" using st(2) by (simp add: shaped_def)
    show ?thesis
      using b [of 0] b [of 1] b [of 2] b [of 3]
      by (simp add: pixel_at_def w Let_def)
  qed
  have "blocks_of ?rb n (bitmap st)"
    using st(2) pix by (simp add: blocks_of_def shaped_def well_formed_def)
  with st show ?thesis by blast
qed

lemma render_canvas_irrelevant: "render cv img n = render cv' img n"
  by (simp add: render_def resize_def)

lemma pixelateImage_blocks:
  assumes "originalImage c = Some img" "valid_source img" "1 \<le> pixelSize c"
  shows "\<exists>out. pixelateImage c =
             Some (Inr (c\<lparr>canvasRef := out, pixelatedImage := Some out, isProcessing := False\<rparr>)) \<and>
           blocks_of (read_back img) (pixelSize c) out"
proof -
  from render_blocks [OF assms(2,3), of "canvasRef c"]
  obtain st where "render (canvasRef c) img (pixelSize c) = Some (Inr st)"
    "blocks_of (read_back img) (pixelSize c) (bitmap st)"
    by blast
  then show ?thesis using assms(1)
    by (auto simp: pixelateImage_def intro!: exI [of _ "bitmap st"])
qed

lemma pixelate_blocks:
  assumes "valid_source src" "1 \<le> n"
  shows "\<exists>out. pixelate src n = Some (Inr out) \<and> blocks_of (read_back src) n out"
proof -
  have "originalImage (loaded src n) = Some src" "pixelSize (loaded src n) = n"
    by (simp_all add: loaded_def)
  with pixelateImage_blocks [of "loaded src n" src] assms
  show ?thesis by (auto simp: pixelate_def)
qed

subsection \<open>Block sizes below one\<close>

lemma block_body_dims:
  "width (bitmap (block_body d n y x st)) = width (bitmap st)"
  "height (bitmap (block_body d n y x st)) = height (bitmap st)"
  by (simp_all add: block_body_def Let_def fillRect_def)

lemma x_loop_partial:
  assumes "x_loop d n y x st = Some r"
  shows "\<not> (n \<le> 0 \<and> x < int (width (bitmap st)))"
proof (rule x_loop.raw_induct
    [where P = "\<lambda>d n y x st r. \<not> (n \<le> 0 \<and> x < int (width (bitmap st)))"
       and xa = "((((d, n), y), x), st)" and ya = r, unfolded prod.case])
  show "x_loop d n y x st = Some r" by (rule assms)
next
  fix f :: "byte list \<Rightarrow> int \<Rightarrow> int \<Rightarrow> int \<Rightarrow> ctx2d \<Rightarrow> ctx2d option" and d n y x st r
  assume ih: "\<And>d n y x st r. f d n y x st = Some r \<Longrightarrow> \<not> (n \<le> 0 \<and> x < int (width (bitmap st)))"
    and run: "(if x < int (width (bitmap st))
           then f d n y (x + n) (block_body d n y x st) else Some st) = Some r"
  show "\<not> (n \<le> 0 \<and> x < int (width (bitmap st)))"
  proof
    assume a: "n \<le> 0 \<and> x < int (width (bitmap st))"
    then have "f d n y (x + n) (block_body d n y x st) = Some r"
      using run by simp
    from ih [OF this] a show False by (simp add: block_body_dims)
  qed
qed

lemma x_loop_diverges:
  "n \<le> 0 \<Longrightarrow> x < int (width (bitmap st)) \<Longrightarrow> x_loop d n y x st = None"
  using x_loop_partial [of d n y x st] by (cases "x_loop d n y x st") auto


lemma y_loop_diverges:
  assumes "n \<le> 0" "y < int (height (bitmap st))" "0 < width (bitmap st)"
  shows "y_loop d n y st = None"
  using assms x_loop_diverges [of n 0 st d y]
  by (subst y_loop.simps) simp

lemma render_diverges:
  assumes "0 < width img" "0 < height img" "n \<le> 0"
  shows "render cv img n = None"
  using assms
  by (simp add: render_def Let_def getImageData_def drawImage_def resize_def y_loop_diverges)

lemma pixelate_diverges:
  assumes "0 < width img" "0 < height img" "n < 1"
  shows "pixelate img n = None"
  using assms
  by (simp add: pixelate_def pixelateImage_def loaded_def render_diverges)

subsection \<open>Results as rasters\<close>

lemma blocks_ofD:
  assumes "blocks_of src n out"
  shows "width out = width src" "height out = height src" "well_formed out"
    and "\<And>x y. x < width src \<Longrightarrow> y < height src \<Longrightarrow>
           pixel_at out x y = (pixel_at src (x - x mod nat n) (y - y mod nat n))\<lparr>alpha := 255\<rparr>"
  using assms by (simp_all add: blocks_of_def)

lemma pixelate_render:
  "pixelate src n = map_option (map_sum id bitmap) (render cv src n)"
proof -
  have "render (canvasRef (loaded src n)) src n = render cv src n"
    by (rule render_canvas_irrelevant)
  then show ?thesis
    by (cases "render cv src n")
      (auto simp: pixelate_def pixelateImage_def loaded_def map_sum_def split: sum.splits)
qed

lemma image_ext:
  assumes dims: "width a = width b" "height a = height b"
    and wf: "well_formed a" "well_formed b"
    and pix: "\<And>x y. x < width a \<Longrightarrow> y < height a \<Longrightarrow> pixel_at a x y = pixel_at b x y"
  shows "a = b"
proof -
  let ?w = "width a" and ?h = "height a"
  have la: "length (data a) = 4 * ?w * ?h" and lb: "length (data b) = 4 * ?w * ?h"
    using wf dims by (simp_all add: well_formed_def)
  have "data a = data b"
  proof (rule nth_equalityI)
    show "length (data a) = length (data b)" using la lb by simp
  next
    fix i assume "i < length (data a)"
    then have i: "i < 4 * ?w * ?h" using la by simp
    then have w: "0 < ?w" by (cases ?w) simp_all
    define q where "q = i div 4"
    define r where "r = i mod 4"
    have i_eq: "i = 4 * q + r" and r: "r = 0 \<or> r = 1 \<or> r = 2 \<or> r = 3"
      by (simp_all add: q_def r_def) arith
    let ?x = "q mod ?w" and ?y = "q div ?w"
    have x: "?x < ?w" using w by simp
    have y: "?y < ?h" using py_of_bounds [OF i] by (simp add: py_of_def q_def)
    have k: "4 * (?y * ?w + ?x) = 4 * q" by simp
    from pix [OF x y] have
      "data a ! (4 * q) = data b ! (4 * q)"
      "data a ! (4 * q + 1) = data b ! (4 * q + 1)"
      "data a ! (4 * q + 2) = data b ! (4 * q + 2)"
      "data a ! (4 * q + 3) = data b ! (4 * q + 3)"
      unfolding pixel_at_def Let_def dims [symmetric] k by simp_all
    with r show "data a ! i = data b ! i"
      unfolding i_eq by auto
  qed
  with dims show ?thesis by (cases a, cases b) simp
qed

subsection \<open>The loops return for block sizes from one\<close>

lemma x_loop_returns:
  assumes "1 \<le> n"
  shows "\<exists>st'. x_loop d n y x st = Some st' \<and> width (bitmap st') = width (bitmap st) \<and>
           height (bitmap st') = height (bitmap st)"
proof (induction "nat (int (width (bitmap st)) - x)" arbitrary: x st rule: less_induct)
  case less
  show ?case
  proof (cases "x < int (width (bitmap st))")
    case False
    then show ?thesis by (subst x_loop.simps) simp
  next
    case True
    let ?st1 = "block_body d n y x st"
    have "nat (int (width (bitmap ?st1)) - (x + n)) < nat (int (width (bitmap st)) - x)"
      using True assms by (simp add: block_body_dims)
    from less.hyps [OF this] True show ?thesis
      by (subst x_loop.simps) (simp add: block_body_dims)
  qed
qed

lemma y_loop_returns:
  assumes "1 \<le> n"
  shows "\<exists>st'. y_loop d n y st = Some st' \<and> width (bitmap st') = width (bitmap st) \<and>
           height (bitmap st') = height (bitmap st)"
proof (induction "nat (int (height (bitmap st)) - y)" arbitrary: y st rule: less_induct)
  case less
  show ?case
  proof (cases "y < int (height (bitmap st))")
    case False
    then show ?thesis by (subst y_loop.simps) simp
  next
    case True
    from x_loop_returns [OF assms, of d y 0 st]
    obtain st1 where st1: "x_loop d n y 0 st = Some st1" "width (bitmap st1) = width (bitmap st)"
      "height (bitmap st1) = height (bitmap st)"
      by blast
    have "nat (int (height (bitmap st1)) - (y + n)) < nat (int (height (bitmap st)) - y)"
      using True assms st1(3) by simp
    from less.hyps [OF this] True st1 show ?thesis
      by (subst y_loop.simps) simp
  qed
qed

lemma render_returns:
  assumes "0 < width img" "0 < height img" "1 \<le> n"
  shows "\<exists>st. render cv img n = Some (Inr st)"
proof -
  let ?cv2 = "drawImage img (resize (width img) (height img) cv)"
  have "getImageData ?cv2 = Inr ?cv2"
    using assms(1,2) by (simp add: getImageData_def drawImage_def resize_def)
  moreover obtain st where
    "y_loop (data ?cv2) n 0 \<lparr>bitmap = ?cv2, fillStyle = (0, 0, 0), reads = []\<rparr> = Some st"
    using y_loop_returns [OF assms(3)] by blast
  ultimately show ?thesis by (simp add: render_def Let_def)
qed

lemmas run_simps = pixelate_def pixelateImage_def loaded_def render_def resize_def drawImage_def
  round_trip_def premultiply_def unpremultiply_def
  getImageData_def y_loop.simps x_loop.simps block_body_def typed_get_def set_fillStyle_def
  fillRect_def inside_rect_def channel_def Let_def upt_rec

lemma pixelateImage_as_pixelate:
  assumes "originalImage c = Some src"
  shows "pixelateImage c =
     map_option (map_sum id (\<lambda>out. c\<lparr>canvasRef := out, pixelatedImage := Some out,
                                      isProcessing := False\<rparr>))
       (pixelate src (pixelSize c))"
  using assms
  by (cases "render (canvasRef c) src (pixelSize c)")
    (auto simp: pixelateImage_def pixelate_render [of _ _ "canvasRef c"] map_sum_def
      split: sum.splits)

lemma block_corner:
  assumes "0 < m" "bx mod m = 0" "bx \<le> x" "x < bx + m"
  shows "x - x mod m = (bx::nat)"
proof -
  obtain r where r: "x = bx + r" "r < m"
    using assms(3,4) by (metis add_less_cancel_left le_Suc_ex)
  from assms(2) obtain k where k: "bx = m * k" by (auto simp: mod_eq_0_iff_dvd)
  have "(m * k + r) mod m = r" using r(2) by simp
  then have "x mod m = r" using r(1) k by simp
  then show ?thesis using r by simp
qed

subsection \<open>What the canvas hands back\<close>

lemma round_trip_opaque: "round_trip c 255 = c"
proof -
  have "unat c < 2 ^ LENGTH(8)" by (rule unsigned_less)
  then have "unat c < 256" by simp
  then have "(2 * unat c * 255 + 255) div 510 = unat c"
    "min 255 ((510 * unat c + 255) div 510) = unat c"
    by simp_all
  then show ?thesis
    by (simp add: round_trip_def premultiply_def unpremultiply_def)
qed

lemma canvas_pixel_opaque: "alpha p = 255 \<Longrightarrow> canvas_pixel p = p"
  by (simp add: canvas_pixel_def round_trip_opaque)

lemma alpha_canvas_pixel [simp]: "alpha (canvas_pixel p) = alpha p"
  by (simp add: canvas_pixel_def)

lemma pixel_at_read_back:
  assumes "well_formed img" "x < width img" "y < height img"
  shows "pixel_at (read_back img) x y = canvas_pixel (pixel_at img x y)"
proof -
  define k where "k = y * width img + x"
  have len: "length (data img) = 4 * width img * height img"
    using assms(1) by (simp add: well_formed_def)
  have b: "data (read_back img) ! (4 * k + c) =
      (if c = 3 then data img ! (4 * k + 3) else round_trip (data img ! (4 * k + c)) (data img ! (4 * k + 3)))"
    if c: "c < 4" for c
  proof -
    have i: "4 * k + c < length (data img)"
      using pixel_index(1) [OF assms(2,3) c] len by (simp add: k_def)
    have d: "(4 * k + c) div 4 = k" and m: "(4 * k + c) mod 4 = c" using c by simp_all
    have "data (read_back img) ! (4 * k + c) =
        (if (4 * k + c) mod 4 = 3 then data img ! (4 * k + c)
         else round_trip (data img ! (4 * k + c)) (data img ! (4 * ((4 * k + c) div 4) + 3)))"
      unfolding read_back_def using i by (simp del: mod_mult_self4 div_mult_self4)
    then show ?thesis unfolding d m by auto
  qed
  show ?thesis
    using b [of 0] b [of 1] b [of 2] b [of 3]
    by (simp add: pixel_at_def canvas_pixel_def Let_def k_def)
qed

lemma read_back_opaque:
  assumes "well_formed img"
    and "\<And>x y. x < width img \<Longrightarrow> y < height img \<Longrightarrow> alpha (pixel_at img x y) = 255"
  shows "read_back img = img"
proof (rule image_ext)
  fix x y assume "x < width (read_back img)" "y < height (read_back img)"
  then have xy: "x < width img" "y < height img" by simp_all
  show "pixel_at (read_back img) x y = pixel_at img x y"
    using pixel_at_read_back [OF assms(1) xy] assms(2) [OF xy]
    by (simp add: canvas_pixel_opaque)
qed (simp_all add: assms(1))

lemma imageData_read_back:
  assumes "valid_source img"
  shows "getImageData (drawImage img (resize (width img) (height img) cv)) = Inr (read_back img)"
  using assms by (simp add: valid_source_def drawImage_cleared getImageData_def)

lemma pixelate_again:
  assumes "valid_source source" "1 \<le> n"
  shows "\<exists>out. pixelate source n = Some (Inr out) \<and> valid_source out \<and>
           pixelate out n = Some (Inr out)"
proof -
  let ?m = "nat n" and ?rb = "read_back source"
  from pixelate_blocks [OF assms]
  obtain out where out: "pixelate source n = Some (Inr out)" "blocks_of ?rb n out"
    by auto
  note b = blocks_ofD [OF out(2)]
  have dims: "width out = width source" "height out = height source" using b(1,2) by simp_all
  have v: "valid_source out"
    using assms(1) b(3) dims by (simp add: valid_source_def)
  have opaque: "alpha (pixel_at out x y) = 255" if "x < width out" "y < height out" for x y
    using b(4) [of x y] that dims by simp
  have rb: "read_back out = out"
    using b(3) opaque by (rule read_back_opaque)
  from pixelate_blocks [OF v assms(2)]
  obtain out2 where out2: "pixelate out n = Some (Inr out2)" "blocks_of out n out2"
    by (auto simp: rb)
  note b2 = blocks_ofD [OF out2(2)]
  have "out2 = out"
  proof (rule image_ext)
    show "width out2 = width out" "height out2 = height out" "well_formed out2" "well_formed out"
      by (rule b2 b)+
    fix x y assume "x < width out2" "y < height out2"
    then have xy: "x < width ?rb" "y < height ?rb"
      using b(1,2) b2(1,2) by simp_all
    let ?cx = "x - x mod ?m" and ?cy = "y - y mod ?m"
    have c: "?cx < width ?rb" "?cy < height ?rb" using xy by simp_all
    have z: "?cx mod ?m = 0" "?cy mod ?m = 0"
      by (simp_all add: minus_mod_eq_mult_div)
    have "pixel_at out2 x y = (pixel_at out ?cx ?cy)\<lparr>alpha := 255\<rparr>"
      using b2(4) [of x y] xy b(1,2) by simp
    also have "pixel_at out ?cx ?cy = (pixel_at ?rb ?cx ?cy)\<lparr>alpha := 255\<rparr>"
      using b(4) [OF c] z by simp
    finally show "pixel_at out2 x y = pixel_at out x y"
      using b(4) [OF xy] by simp
  qed
  with out(1) out2(1) v show ?thesis by simp
qed

lemmas pixel_simps = pixel_at_def canvas_pixel_def round_trip_def premultiply_def
  unpremultiply_def

lemma sampled_pixels:
  assumes "valid_source source" "1 \<le> n"
  obtains st where
    "getImageData (drawImage source (resize (width source) (height source) cv)) =
       Inr (read_back source)"
    "render cv source n = Some (Inr st)"
    "pixelate source n = Some (Inr (bitmap st))"
    "blocks_of (read_back source) n (bitmap st)"
    "reads_ok (data (read_back source)) st" "reads st \<noteq> []"
proof -
  from render_blocks [OF assms, of cv]
  obtain st where st: "render cv source n = Some (Inr st)"
    "blocks_of (read_back source) n (bitmap st)" "reads_ok (data (read_back source)) st"
    "reads st \<noteq> []"
    by blast
  have "pixelate source n = Some (Inr (bitmap st))"
    using st(1) by (simp add: pixelate_render [of _ _ cv])
  with st imageData_read_back [OF assms(1), of cv] that show ?thesis by blast
qed

section \<open>The claims of the specification\<close>

text \<open>
  Claim C3. For a valid source and a block size of at least one, the run returns a raster
  whose width and height are those of the source.
\<close>

theorem pixelate_dimensions:
  assumes "valid_source source" "1 \<le> blockSize"
  shows "\<exists>out. pixelate source blockSize = Some (Inr out) \<and>
           width out = width source \<and> height out = height source"
  using pixelate_blocks [OF assms] by (auto simp: blocks_of_def)

theorem pixelate_dimensions_witness:
  "valid_source \<lparr>width = 3, height = 2, data = replicate 24 7\<rparr> \<and> (1::int) \<le> 2 \<and>
   (\<exists>out. pixelate \<lparr>width = 3, height = 2, data = replicate 24 7\<rparr> 2 = Some (Inr out) \<and>
      width out = 3 \<and> height out = 2)"
proof -
  have v: "valid_source \<lparr>width = 3, height = 2, data = replicate 24 7\<rparr>"
    by (simp add: valid_source_def well_formed_def)
  have n: "(1::int) \<le> 2" by simp
  from pixelate_dimensions [OF v n] v show ?thesis by simp
qed

text \<open>
  Claim C4, as stated: a block size below one makes the run fail with \<open>InvalidParameter\<close>.
  The component has no such check. On a 2 by 2 image with block size 0 the inner loop adds
  0 to \<open>x\<close> for ever: the run returns nothing, and in particular throws no error.
\<close>

theorem pixelate_zero_no_InvalidParameter:
  "valid_source \<lparr>width = 2, height = 2, data = replicate 16 9\<rparr> \<and>
   pixelate \<lparr>width = 2, height = 2, data = replicate 16 9\<rparr> 0 \<noteq> Some (Inl InvalidParameter) \<and>
   pixelate \<lparr>width = 2, height = 2, data = replicate 16 9\<rparr> 0 = None"
proof -
  have "pixelate \<lparr>width = 2, height = 2, data = replicate 16 9\<rparr> 0 = None"
    by (rule pixelate_diverges) simp_all
  then show ?thesis by (simp add: valid_source_def well_formed_def)
qed

text \<open>
  Claim C4, amended. For a valid source and a block size below one the run never returns:
  it yields neither an output raster nor an error.
\<close>

theorem pixelate_nonpositive_never_returns:
  assumes "valid_source source" "blockSize < 1"
  shows "pixelate source blockSize = None"
  using assms by (simp add: valid_source_def pixelate_diverges)

theorem pixelate_nonpositive_never_returns_witness:
  "valid_source \<lparr>width = 1, height = 1, data = [1, 2, 3, 4]\<rparr> \<and> (-2::int) < 1 \<and>
   pixelate \<lparr>width = 1, height = 1, data = [1, 2, 3, 4]\<rparr> (-2) = None"
proof -
  have v: "valid_source \<lparr>width = 1, height = 1, data = [1, 2, 3, 4]\<rparr>"
    by (simp add: valid_source_def well_formed_def)
  from pixelate_nonpositive_never_returns [OF v, of "-2"] v show ?thesis by simp
qed

text \<open>
  Claim C10. For a source of positive width and height and a block size of at least one
  the double loop ends, from whatever row and drawing state it is entered, and the run
  returns a raster.
\<close>

theorem pixelate_terminates:
  assumes "0 < width source" "0 < height source" "1 \<le> blockSize"
  shows "(\<forall>d y st. \<exists>st'. y_loop d blockSize y st = Some st') \<and>
         (\<exists>out. pixelate source blockSize = Some (Inr out))"
proof
  show "\<forall>d y st. \<exists>st'. y_loop d blockSize y st = Some st'"
    using y_loop_returns [OF assms(3)] by blast
  from render_returns [OF assms, of "canvasRef (loaded source blockSize)"]
  show "\<exists>out. pixelate source blockSize = Some (Inr out)"
    by (auto simp: pixelate_render [of _ _ "canvasRef (loaded source blockSize)"])
qed

theorem pixelate_terminates_witness:
  "0 < width \<lparr>width = 5, height = 4, data = replicate 80 0\<rparr> \<and>
   0 < height \<lparr>width = 5, height = 4, data = replicate 80 0\<rparr> \<and> (1::int) \<le> 3 \<and>
   (\<forall>d y st. \<exists>st'. y_loop d 3 y st = Some st') \<and>
   (\<exists>out. pixelate \<lparr>width = 5, height = 4, data = replicate 80 0\<rparr> 3 = Some (Inr out))"
  using pixelate_terminates [of "\<lparr>width = 5, height = 4, data = replicate 80 0\<rparr>" 3]
  by simp

text \<open>
  Claim C5, as stated: some valid source and block size give a second pass that differs
  from the first. None does.
\<close>

theorem no_second_pass_difference:
  "\<not> (\<exists>source n out. valid_source source \<and> 1 \<le> n \<and>
        pixelate source n = Some (Inr out) \<and> pixelate out n \<noteq> pixelate source n)"
  using pixelate_again by fastforce

text \<open>
  Claim C5, amended. For every valid source and block size of at least one, running the
  filter on its own result at the same block size gives that result again.
\<close>

theorem pixelate_idempotent:
  assumes "valid_source source" "1 \<le> n"
  shows "\<exists>out. pixelate source n = Some (Inr out) \<and> pixelate out n = Some (Inr out)"
  using pixelate_again [OF assms] by blast

theorem pixelate_idempotent_witness:
  "valid_source \<lparr>width = 3, height = 1, data = map word_of_nat [0..<12]\<rparr> \<and> (1::int) \<le> 2 \<and>
   (\<exists>out. pixelate \<lparr>width = 3, height = 1, data = map word_of_nat [0..<12]\<rparr> 2 = Some (Inr out) \<and>
      pixelate out 2 = Some (Inr out))"
proof -
  have v: "valid_source \<lparr>width = 3, height = 1, data = map word_of_nat [0..<12]\<rparr>"
    by (simp add: valid_source_def well_formed_def)
  have n: "(1::int) \<le> 2" by simp
  from pixelate_idempotent [OF v n] v show ?thesis by simp
qed

text \<open>
  Claim C6. A run leaves the loaded image as it was, and a second run at another block
  size gives what a run on the newly loaded image gives at that block size; so does the
  first.
\<close>

theorem pixelateImage_leaves_source:
  assumes "originalImage c = Some source" "valid_source source" "1 \<le> pixelSize c" "1 \<le> m"
  shows "\<exists>c' c''. pixelateImage c = Some (Inr c') \<and> originalImage c' = Some source \<and>
           pixelate source (pixelSize c) = Some (Inr (canvasRef c')) \<and>
           pixelateImage (c'\<lparr>pixelSize := m\<rparr>) = Some (Inr c'') \<and>
           originalImage c'' = Some source \<and>
           pixelate source m = Some (Inr (canvasRef c'')) \<and>
           pixelatedImage c'' = Some (canvasRef c'')"
proof -
  from pixelate_blocks [OF assms(2,3)]
  obtain out where out: "pixelate source (pixelSize c) = Some (Inr out)" by blast
  from pixelate_blocks [OF assms(2,4)]
  obtain out' where out': "pixelate source m = Some (Inr out')" by blast
  let ?c' = "c\<lparr>canvasRef := out, pixelatedImage := Some out, isProcessing := False\<rparr>"
  let ?c'' = "?c'\<lparr>pixelSize := m, canvasRef := out', pixelatedImage := Some out',
                  isProcessing := False\<rparr>"
  have 1: "pixelateImage c = Some (Inr ?c')"
    using out by (simp add: pixelateImage_as_pixelate [OF assms(1)])
  have "originalImage (?c'\<lparr>pixelSize := m\<rparr>) = Some source" using assms(1) by simp
  from pixelateImage_as_pixelate [OF this]
  have 2: "pixelateImage (?c'\<lparr>pixelSize := m\<rparr>) = Some (Inr ?c'')"
    using out' by simp
  show ?thesis
    using 1 2 out out' assms(1)
    by (intro exI [of _ ?c'] exI [of _ ?c'']) simp
qed

theorem pixelateImage_leaves_source_witness:
  "originalImage (loaded \<lparr>width = 2, height = 2, data = replicate 16 5\<rparr> 2) =
     Some \<lparr>width = 2, height = 2, data = replicate 16 5\<rparr> \<and>
   valid_source \<lparr>width = 2, height = 2, data = replicate 16 5\<rparr> \<and>
   1 \<le> pixelSize (loaded \<lparr>width = 2, height = 2, data = replicate 16 5\<rparr> 2) \<and> (1::int) \<le> 7 \<and>
   (\<exists>c' c''. pixelateImage (loaded \<lparr>width = 2, height = 2, data = replicate 16 5\<rparr> 2) = Some (Inr c') \<and>
      originalImage c' = Some \<lparr>width = 2, height = 2, data = replicate 16 5\<rparr> \<and>
      pixelateImage (c'\<lparr>pixelSize := 7\<rparr>) = Some (Inr c'') \<and>
      originalImage c'' = Some \<lparr>width = 2, height = 2, data = replicate 16 5\<rparr> \<and>
      pixelate \<lparr>width = 2, height = 2, data = replicate 16 5\<rparr> 7 = Some (Inr (canvasRef c'')))"
proof -
  let ?S = "\<lparr>width = 2, height = 2, data = replicate 16 5\<rparr> :: ImageData"
  have h: "originalImage (loaded ?S 2) = Some ?S" "valid_source ?S"
    "1 \<le> pixelSize (loaded ?S 2)" "(1::int) \<le> 7"
    by (simp_all add: loaded_def valid_source_def well_formed_def)
  from pixelateImage_leaves_source [OF h] h show ?thesis by blast
qed

text \<open>
  Claim C9. Two runs with the same loaded image and the same block size give the same
  raster, whatever the canvas held before and whatever the earlier result was.
\<close>

theorem pixelateImage_deterministic:
  assumes "valid_source source" "1 \<le> n"
    and "originalImage c1 = Some source" "pixelSize c1 = n"
    and "originalImage c2 = Some source" "pixelSize c2 = n"
  shows "\<exists>out c1' c2'. pixelateImage c1 = Some (Inr c1') \<and> pixelateImage c2 = Some (Inr c2') \<and>
           pixelatedImage c1' = Some out \<and> pixelatedImage c2' = Some out \<and>
           canvasRef c1' = out \<and> canvasRef c2' = out \<and>
           pixelate source n = Some (Inr out)"
proof -
  from pixelate_blocks [OF assms(1,2)]
  obtain out where out: "pixelate source n = Some (Inr out)" by blast
  let ?c1 = "c1\<lparr>canvasRef := out, pixelatedImage := Some out, isProcessing := False\<rparr>"
  let ?c2 = "c2\<lparr>canvasRef := out, pixelatedImage := Some out, isProcessing := False\<rparr>"
  have "pixelateImage c1 = Some (Inr ?c1)" "pixelateImage c2 = Some (Inr ?c2)"
    using out assms(4,6)
    by (simp_all add: pixelateImage_as_pixelate [OF assms(3)] pixelateImage_as_pixelate [OF assms(5)])
  with out show ?thesis
    by (intro exI [of _ out] exI [of _ ?c1] exI [of _ ?c2]) simp
qed

theorem pixelateImage_deterministic_witness:
  "valid_source \<lparr>width = 1, height = 2, data = [1, 2, 3, 4, 5, 6, 7, 8]\<rparr> \<and> (1::int) \<le> 4 \<and>
   (\<exists>out c1' c2'.
      pixelateImage (loaded \<lparr>width = 1, height = 2, data = [1, 2, 3, 4, 5, 6, 7, 8]\<rparr> 4) = Some (Inr c1') \<and>
      pixelateImage \<lparr>originalImage = Some \<lparr>width = 1, height = 2, data = [1, 2, 3, 4, 5, 6, 7, 8]\<rparr>,
                     pixelatedImage = Some \<lparr>width = 1, height = 1, data = [9, 9, 9, 9]\<rparr>,
                     pixelSize = 4, isProcessing = True,
                     canvasRef = \<lparr>width = 1, height = 1, data = [9, 9, 9, 9]\<rparr>\<rparr> = Some (Inr c2') \<and>
      pixelatedImage c1' = Some out \<and> pixelatedImage c2' = Some out)"
proof -
  let ?S = "\<lparr>width = 1, height = 2, data = [1, 2, 3, 4, 5, 6, 7, 8]\<rparr> :: ImageData"
  let ?c2 = "\<lparr>originalImage = Some ?S,
               pixelatedImage = Some \<lparr>width = 1, height = 1, data = [9, 9, 9, 9]\<rparr>,
               pixelSize = 4, isProcessing = True,
               canvasRef = \<lparr>width = 1, height = 1, data = [9, 9, 9, 9]\<rparr>\<rparr>"
  have v: "valid_source ?S" "(1::int) \<le> 4"
    by (simp_all add: valid_source_def well_formed_def)
  have h: "originalImage (loaded ?S 4) = Some ?S" "pixelSize (loaded ?S 4) = 4"
    "originalImage ?c2 = Some ?S" "pixelSize ?c2 = 4"
    by (simp_all add: loaded_def)
  from pixelateImage_deterministic [OF v h] v show ?thesis by blast
qed

text \<open>
  Claim C1, as stated: with block size 1 the result equals the source in all four channels.
  The fill colour is the opaque \<open>rgb(r, g, b)\<close> of the pixel that \<open>getImageData\<close>
  hands back: a source pixel (10, 20, 30, 40) comes out as (13, 19, 32, 255).
\<close>

theorem pixelate_one_not_identity:
  "valid_source \<lparr>width = 1, height = 1, data = [10, 20, 30, 40]\<rparr> \<and>
   pixelate \<lparr>width = 1, height = 1, data = [10, 20, 30, 40]\<rparr> 1 =
     Some (Inr \<lparr>width = 1, height = 1, data = [13, 19, 32, 255]\<rparr>) \<and>
   pixel_at \<lparr>width = 1, height = 1, data = [13, 19, 32, 255]\<rparr> 0 0 \<noteq>
     pixel_at \<lparr>width = 1, height = 1, data = [10, 20, 30, 40]\<rparr> 0 0"
  by (simp add: run_simps valid_source_def well_formed_def pixel_at_def)

text \<open>
  Claim C1, amended. With block size 1 the result has the size of the source, and every
  pixel of it has alpha 255 and the red, green and blue of the same pixel of
  \<open>imageData\<close>, the buffer that \<open>getImageData\<close> returns for the drawn source. That
  pixel is the source pixel as the canvas hands it back: the source pixel itself when its
  alpha is 255. The result is the source itself exactly when every source pixel has
  alpha 255.
\<close>

theorem pixelate_one_read_back:
  assumes "valid_source source"
  shows "\<exists>imageData out.
           getImageData (drawImage source (resize (width source) (height source) cv)) =
             Inr imageData \<and>
           pixelate source 1 = Some (Inr out) \<and>
           width out = width source \<and> height out = height source \<and>
           (\<forall>x < width source. \<forall>y < height source.
              pixel_at out x y = (pixel_at imageData x y)\<lparr>alpha := 255\<rparr> \<and>
              pixel_at imageData x y = canvas_pixel (pixel_at source x y) \<and>
              (alpha (pixel_at source x y) = 255 \<longrightarrow> pixel_at out x y = pixel_at source x y)) \<and>
           ((\<forall>x < width source. \<forall>y < height source. alpha (pixel_at source x y) = 255)
              \<longleftrightarrow> out = source)"
proof -
  let ?rb = "read_back source"
  have wf: "well_formed source" using assms by (simp add: valid_source_def)
  have one: "(1::int) \<le> 1" by simp
  obtain st where st: "getImageData (drawImage source (resize (width source) (height source) cv)) = Inr ?rb"
    "render cv source 1 = Some (Inr st)"
    "pixelate source 1 = Some (Inr (bitmap st))" "blocks_of ?rb 1 (bitmap st)"
    "reads_ok (data ?rb) st" "reads st \<noteq> []"
    by (rule sampled_pixels [OF assms one, of cv])
  define out where "out = bitmap st"
  note b = blocks_ofD [OF st(4), folded out_def]
  have dims: "width out = width source" "height out = height source" using b(1,2) by simp_all
  have pix: "pixel_at out x y = (pixel_at ?rb x y)\<lparr>alpha := 255\<rparr>"
    and rb: "pixel_at ?rb x y = canvas_pixel (pixel_at source x y)"
    if "x < width source" "y < height source" for x y
    using b(4) [of x y] that pixel_at_read_back [OF wf that] by simp_all
  have same: "pixel_at out x y = pixel_at source x y"
    if "x < width source" "y < height source" "alpha (pixel_at source x y) = 255" for x y
    using pix [OF that(1,2)] rb [OF that(1,2)] that(3) by (simp add: canvas_pixel_opaque)
  have "out = source"
    if opaque: "\<forall>x < width source. \<forall>y < height source. alpha (pixel_at source x y) = 255"
  proof (rule image_ext)
    show "width out = width source" "height out = height source" "well_formed out"
      by (rule dims b)+
    show "well_formed source" by (rule wf)
    fix x y assume "x < width out" "y < height out"
    then have xy: "x < width source" "y < height source" using dims by simp_all
    with opaque have "alpha (pixel_at source x y) = 255" by simp
    with xy show "pixel_at out x y = pixel_at source x y" by (rule same)
  qed
  moreover have "alpha (pixel_at source x y) = 255"
    if "out = source" "x < width source" "y < height source" for x y
  proof -
    have "alpha (pixel_at out x y) = 255" using pix [OF that(2,3)] by simp
    with that(1) show ?thesis by simp
  qed
  ultimately have "(\<forall>x < width source. \<forall>y < height source. alpha (pixel_at source x y) = 255)
      \<longleftrightarrow> out = source"
    by blast
  with st(1) st(3) [folded out_def] dims pix rb same show ?thesis by blast
qed

theorem pixelate_one_read_back_witness:
  "valid_source \<lparr>width = 2, height = 1, data = [1, 2, 3, 255, 10, 20, 30, 40]\<rparr> \<and>
   (\<exists>out. pixelate \<lparr>width = 2, height = 1, data = [1, 2, 3, 255, 10, 20, 30, 40]\<rparr> 1 = Some (Inr out) \<and>
      width out = 2 \<and> height out = 1 \<and>
      pixel_at out 0 0 = \<lparr>red = 1, green = 2, blue = 3, alpha = 255\<rparr> \<and>
      pixel_at out 1 0 = \<lparr>red = 13, green = 19, blue = 32, alpha = 255\<rparr>)"
proof -
  let ?S = "\<lparr>width = 2, height = 1, data = [1, 2, 3, 255, 10, 20, 30, 40]\<rparr>"
  have v: "valid_source ?S" by (simp add: valid_source_def well_formed_def)
  from pixelate_one_read_back [OF v, of ?S]
  obtain imageData out where out: "pixelate ?S 1 = Some (Inr out)" "width out = 2" "height out = 1"
    and pix: "\<And>x y. x < 2 \<Longrightarrow> y < 1 \<Longrightarrow>
       pixel_at out x y = (pixel_at imageData x y)\<lparr>alpha := 255\<rparr> \<and>
       pixel_at imageData x y = canvas_pixel (pixel_at ?S x y)"
    by auto
  have "pixel_at out 0 0 = (canvas_pixel (pixel_at ?S 0 0))\<lparr>alpha := 255\<rparr>"
    "pixel_at out 1 0 = (canvas_pixel (pixel_at ?S 1 0))\<lparr>alpha := 255\<rparr>"
    using pix [of 0 0] pix [of 1 0] by simp_all
  moreover have "(canvas_pixel (pixel_at ?S 0 0))\<lparr>alpha := 255\<rparr> =
      \<lparr>red = 1, green = 2, blue = 3, alpha = 255\<rparr>"
    "(canvas_pixel (pixel_at ?S 1 0))\<lparr>alpha := 255\<rparr> =
      \<lparr>red = 13, green = 19, blue = 32, alpha = 255\<rparr>"
    by (simp_all add: pixel_simps)
  ultimately have "pixel_at out 0 0 = \<lparr>red = 1, green = 2, blue = 3, alpha = 255\<rparr>"
    "pixel_at out 1 0 = \<lparr>red = 13, green = 19, blue = 32, alpha = 255\<rparr>"
    by simp_all
  with v out show ?thesis by blast
qed

text \<open>
  Claim C2, as stated: in a block that lies wholly inside the image every output pixel
  has the red, green and blue of the source pixel at the block's corner. The loops sample
  the buffer that \<open>getImageData\<close> hands back, not the loaded image: on a 2 by 2 source
  whose corner pixel is the translucent (10, 20, 30, 40), block size 2 paints the whole
  block (13, 19, 32).
\<close>

theorem pixelate_full_block_translucent_corner:
  "valid_source \<lparr>width = 2, height = 2,
     data = [10, 20, 30, 40, 50, 60, 70, 80, 1, 2, 3, 255, 4, 5, 6, 255]\<rparr> \<and>
   pixelate \<lparr>width = 2, height = 2,
     data = [10, 20, 30, 40, 50, 60, 70, 80, 1, 2, 3, 255, 4, 5, 6, 255]\<rparr> 2 =
     Some (Inr \<lparr>width = 2, height = 2,
       data = [13, 19, 32, 255, 13, 19, 32, 255, 13, 19, 32, 255, 13, 19, 32, 255]\<rparr>) \<and>
   red (pixel_at \<lparr>width = 2, height = 2,
       data = [13, 19, 32, 255, 13, 19, 32, 255, 13, 19, 32, 255, 13, 19, 32, 255]\<rparr> 1 1) \<noteq>
     red (pixel_at \<lparr>width = 2, height = 2,
       data = [10, 20, 30, 40, 50, 60, 70, 80, 1, 2, 3, 255, 4, 5, 6, 255]\<rparr> 0 0)"
  by (simp add: run_simps valid_source_def well_formed_def pixel_at_def)

text \<open>
  Claim C2, amended. For a valid source and a block size of at least one, take a block
  whose corner \<open>(bx, by)\<close> has both coordinates a multiple of the block size and whose
  whole extent lies inside the image: every pixel of that block in the result has the
  red, green and blue of the pixel at \<open>(bx, by)\<close> of \<open>imageData\<close>, the buffer that
  \<open>getImageData\<close> returns for the drawn source. That pixel is the source pixel at
  \<open>(bx, by)\<close> as the canvas hands it back: the source pixel itself when its alpha is 255.
\<close>

theorem pixelate_full_block:
  assumes "valid_source source" "1 \<le> blockSize"
    and "int bx mod blockSize = 0" "int by mod blockSize = 0"
    and "int bx + blockSize \<le> int (width source)" "int by + blockSize \<le> int (height source)"
  shows "\<exists>imageData out.
           getImageData (drawImage source (resize (width source) (height source) cv)) =
             Inr imageData \<and>
           pixelate source blockSize = Some (Inr out) \<and>
           (\<forall>x y. int bx \<le> int x \<and> int x < int bx + blockSize \<and>
                  int by \<le> int y \<and> int y < int by + blockSize \<longrightarrow>
              red (pixel_at out x y) = red (pixel_at imageData bx by) \<and>
              green (pixel_at out x y) = green (pixel_at imageData bx by) \<and>
              blue (pixel_at out x y) = blue (pixel_at imageData bx by)) \<and>
           pixel_at imageData bx by = canvas_pixel (pixel_at source bx by) \<and>
           (alpha (pixel_at source bx by) = 255 \<longrightarrow>
              pixel_at imageData bx by = pixel_at source bx by)"
proof -
  let ?m = "nat blockSize" and ?rb = "read_back source"
  have m: "0 < ?m" "blockSize = int ?m" using assms(2) by simp_all
  have wf: "well_formed source" using assms(1) by (simp add: valid_source_def)
  obtain st where st: "getImageData (drawImage source (resize (width source) (height source) cv)) = Inr ?rb"
    "render cv source blockSize = Some (Inr st)"
    "pixelate source blockSize = Some (Inr (bitmap st))" "blocks_of ?rb blockSize (bitmap st)"
    "reads_ok (data ?rb) st" "reads st \<noteq> []"
    by (rule sampled_pixels [OF assms(1,2), of cv])
  note b = blocks_ofD [OF st(4)]
  have bxm: "bx mod ?m = 0" and bym: "by mod ?m = 0"
    using assms(3,4) m by (metis of_nat_eq_0_iff zmod_int)+
  have corner: "bx < width source" "by < height source"
    using assms(5,6) m by linarith+
  have "red (pixel_at (bitmap st) x y) = red (pixel_at ?rb bx by) \<and>
        green (pixel_at (bitmap st) x y) = green (pixel_at ?rb bx by) \<and>
        blue (pixel_at (bitmap st) x y) = blue (pixel_at ?rb bx by)"
    if xy: "int bx \<le> int x" "int x < int bx + blockSize"
      "int by \<le> int y" "int y < int by + blockSize" for x y
  proof -
    have x: "bx \<le> x" "x < bx + ?m" and y: "by \<le> y" "y < by + ?m"
      using xy m by linarith+
    have "x < width ?rb" "y < height ?rb"
      using x y assms(5,6) m by simp_all
    from b(4) [OF this]
    have "pixel_at (bitmap st) x y = (pixel_at ?rb bx by)\<lparr>alpha := 255\<rparr>"
      by (simp only: block_corner [OF m(1) bxm x] block_corner [OF m(1) bym y])
    then show ?thesis by simp
  qed
  moreover have rb: "pixel_at ?rb bx by = canvas_pixel (pixel_at source bx by)"
    by (rule pixel_at_read_back [OF wf corner])
  moreover have "pixel_at ?rb bx by = pixel_at source bx by"
    if "alpha (pixel_at source bx by) = 255"
    using rb that by (simp add: canvas_pixel_opaque)
  ultimately show ?thesis using st(1,3) by blast
qed

theorem pixelate_full_block_witness:
  "valid_source \<lparr>width = 4, height = 2,
     data = [0, 1, 2, 3, 4, 5, 6, 7, 8, 9, 10, 255, 12, 13, 14, 15,
             16, 17, 18, 19, 20, 21, 22, 23, 24, 25, 26, 27, 28, 29, 30, 31]\<rparr> \<and>
   (1::int) \<le> 2 \<and> int 2 mod 2 = 0 \<and> int 0 mod 2 = 0 \<and> int 2 + 2 \<le> int 4 \<and> int 0 + 2 \<le> int 2 \<and>
   (\<exists>out. pixelate \<lparr>width = 4, height = 2,
       data = [0, 1, 2, 3, 4, 5, 6, 7, 8, 9, 10, 255, 12, 13, 14, 15,
               16, 17, 18, 19, 20, 21, 22, 23, 24, 25, 26, 27, 28, 29, 30, 31]\<rparr> 2 = Some (Inr out) \<and>
      red (pixel_at out 3 1) = 8 \<and> green (pixel_at out 3 1) = 9 \<and> blue (pixel_at out 3 1) = 10)"
proof -
  let ?S = "\<lparr>width = 4, height = 2,
     data = [0, 1, 2, 3, 4, 5, 6, 7, 8, 9, 10, 255, 12, 13, 14, 15,
             16, 17, 18, 19, 20, 21, 22, 23, 24, 25, 26, 27, 28, 29, 30, 31]\<rparr> :: ImageData"
  have v: "valid_source ?S" by (simp add: valid_source_def well_formed_def)
  have h: "(1::int) \<le> 2" "int 2 mod 2 = 0" "int 0 mod 2 = 0"
    "int 2 + 2 \<le> int (width ?S)" "int 0 + 2 \<le> int (height ?S)"
    by simp_all
  from pixelate_full_block [OF v h, of ?S]
  obtain imageData out where out: "pixelate ?S 2 = Some (Inr out)"
    and pix: "\<And>x y. int 2 \<le> int x \<and> int x < int 2 + 2 \<and> int 0 \<le> int y \<and> int y < int 0 + 2 \<Longrightarrow>
              red (pixel_at out x y) = red (pixel_at imageData 2 0) \<and>
              green (pixel_at out x y) = green (pixel_at imageData 2 0) \<and>
              blue (pixel_at out x y) = blue (pixel_at imageData 2 0)"
    and rb: "alpha (pixel_at ?S 2 0) = 255 \<Longrightarrow> pixel_at imageData 2 0 = pixel_at ?S 2 0"
    by blast
  have "red (pixel_at out 3 1) = red (pixel_at imageData 2 0) \<and>
        green (pixel_at out 3 1) = green (pixel_at imageData 2 0) \<and>
        blue (pixel_at out 3 1) = blue (pixel_at imageData 2 0)"
    by (rule pix) simp
  moreover have "pixel_at imageData 2 0 = pixel_at ?S 2 0"
    by (rule rb) (simp add: pixel_at_def)
  moreover have "red (pixel_at ?S 2 0) = 8" "green (pixel_at ?S 2 0) = 9" "blue (pixel_at ?S 2 0) = 10"
    by (simp_all add: pixel_at_def)
  ultimately have "red (pixel_at out 3 1) = 8 \<and> green (pixel_at out 3 1) = 9 \<and> blue (pixel_at out 3 1) = 10"
    by simp
  with v h out show ?thesis by simp
qed

text \<open>
  Claim C8, as stated: with a block size above both dimensions every output pixel equals
  the source pixel at \<open>(0, 0)\<close>. It is that pixel as \<open>getImageData\<close> hands it back, made
  opaque: a 2 by 1 source whose first pixel is (10, 20, 30, 40) comes out as
  (13, 19, 32, 255) everywhere.
\<close>

theorem pixelate_oversized_not_source_pixel:
  "valid_source \<lparr>width = 2, height = 1, data = [10, 20, 30, 40, 50, 60, 70, 80]\<rparr> \<and>
   pixelate \<lparr>width = 2, height = 1, data = [10, 20, 30, 40, 50, 60, 70, 80]\<rparr> 3 =
     Some (Inr \<lparr>width = 2, height = 1, data = [13, 19, 32, 255, 13, 19, 32, 255]\<rparr>) \<and>
   pixel_at \<lparr>width = 2, height = 1, data = [13, 19, 32, 255, 13, 19, 32, 255]\<rparr> 1 0 \<noteq>
     pixel_at \<lparr>width = 2, height = 1, data = [10, 20, 30, 40, 50, 60, 70, 80]\<rparr> 0 0"
  by (simp add: run_simps valid_source_def well_formed_def pixel_at_def)

text \<open>
  Claim C8, amended. For a valid source and a block size above both its width and its
  height the result is one solid colour: every pixel of it has alpha 255 and the red,
  green and blue of the pixel at \<open>(0, 0)\<close> of \<open>imageData\<close>, the buffer that
  \<open>getImageData\<close> returns for the drawn source. That pixel is the source pixel at
  \<open>(0, 0)\<close> as the canvas hands it back: the source pixel itself when its alpha is 255.
\<close>

theorem pixelate_oversized_block:
  assumes "valid_source source"
    and "int (width source) < blockSize" "int (height source) < blockSize"
  shows "\<exists>imageData out.
           getImageData (drawImage source (resize (width source) (height source) cv)) =
             Inr imageData \<and>
           pixelate source blockSize = Some (Inr out) \<and>
           width out = width source \<and> height out = height source \<and>
           (\<forall>x < width source. \<forall>y < height source.
              pixel_at out x y = (pixel_at imageData 0 0)\<lparr>alpha := 255\<rparr>) \<and>
           pixel_at imageData 0 0 = canvas_pixel (pixel_at source 0 0) \<and>
           (alpha (pixel_at source 0 0) = 255 \<longrightarrow>
              (\<forall>x < width source. \<forall>y < height source. pixel_at out x y = pixel_at source 0 0))"
proof -
  let ?rb = "read_back source"
  have n: "1 \<le> blockSize" using assms(2) by simp
  have wf: "well_formed source" and pos: "0 < width source" "0 < height source"
    using assms(1) by (simp_all add: valid_source_def)
  obtain st where st: "getImageData (drawImage source (resize (width source) (height source) cv)) = Inr ?rb"
    "render cv source blockSize = Some (Inr st)"
    "pixelate source blockSize = Some (Inr (bitmap st))" "blocks_of ?rb blockSize (bitmap st)"
    "reads_ok (data ?rb) st" "reads st \<noteq> []"
    by (rule sampled_pixels [OF assms(1) n, of cv])
  note b = blocks_ofD [OF st(4)]
  have pix: "pixel_at (bitmap st) x y = (pixel_at ?rb 0 0)\<lparr>alpha := 255\<rparr>"
    if xy: "x < width source" "y < height source" for x y
  proof -
    have "x < nat blockSize" "y < nat blockSize" using xy assms(2,3) by linarith+
    then have "x - x mod nat blockSize = 0" "y - y mod nat blockSize = 0" by simp_all
    with b(4) [of x y] xy show ?thesis by simp
  qed
  have rb: "pixel_at ?rb 0 0 = canvas_pixel (pixel_at source 0 0)"
    by (rule pixel_at_read_back [OF wf pos])
  have "pixel_at (bitmap st) x y = pixel_at source 0 0"
    if "alpha (pixel_at source 0 0) = 255" "x < width source" "y < height source" for x y
    using pix [OF that(2,3)] rb that(1) by (simp add: canvas_pixel_opaque)
  with st(1,3) b(1,2) pix rb show ?thesis
    by (intro exI [of _ ?rb] exI [of _ "bitmap st"]) simp
qed

theorem pixelate_oversized_block_witness:
  "valid_source \<lparr>width = 2, height = 2,
     data = [100, 101, 102, 103, 104, 105, 106, 107, 108, 109, 110, 111, 112, 113, 114, 115]\<rparr> \<and>
   int 2 < (5::int) \<and>
   (\<exists>out. pixelate \<lparr>width = 2, height = 2,
       data = [100, 101, 102, 103, 104, 105, 106, 107, 108, 109, 110, 111, 112, 113, 114, 115]\<rparr> 5 =
        Some (Inr out) \<and>
      width out = 2 \<and> height out = 2 \<and>
      pixel_at out 0 0 = \<lparr>red = 99, green = 102, blue = 102, alpha = 255\<rparr> \<and>
      pixel_at out 1 0 = \<lparr>red = 99, green = 102, blue = 102, alpha = 255\<rparr> \<and>
      pixel_at out 0 1 = \<lparr>red = 99, green = 102, blue = 102, alpha = 255\<rparr> \<and>
      pixel_at out 1 1 = \<lparr>red = 99, green = 102, blue = 102, alpha = 255\<rparr>)"
proof -
  let ?S = "\<lparr>width = 2, height = 2,
     data = [100, 101, 102, 103, 104, 105, 106, 107, 108, 109, 110, 111, 112, 113, 114, 115]\<rparr> :: ImageData"
  have v: "valid_source ?S" by (simp add: valid_source_def well_formed_def)
  have h: "int (width ?S) < 5" "int (height ?S) < 5" by simp_all
  from pixelate_oversized_block [OF v h, of ?S]
  obtain imageData out where out: "pixelate ?S 5 = Some (Inr out)" "width out = 2" "height out = 2"
    and pix: "\<And>x y. x < 2 \<Longrightarrow> y < 2 \<Longrightarrow> pixel_at out x y = (pixel_at imageData 0 0)\<lparr>alpha := 255\<rparr>"
    and rb: "pixel_at imageData 0 0 = canvas_pixel (pixel_at ?S 0 0)"
    by auto
  have c: "(pixel_at imageData 0 0)\<lparr>alpha := 255\<rparr> = \<lparr>red = 99, green = 102, blue = 102, alpha = 255\<rparr>"
    unfolding rb by (simp add: pixel_simps)
  have "pixel_at out 0 0 = \<lparr>red = 99, green = 102, blue = 102, alpha = 255\<rparr>"
    "pixel_at out 1 0 = \<lparr>red = 99, green = 102, blue = 102, alpha = 255\<rparr>"
    "pixel_at out 0 1 = \<lparr>red = 99, green = 102, blue = 102, alpha = 255\<rparr>"
    "pixel_at out 1 1 = \<lparr>red = 99, green = 102, blue = 102, alpha = 255\<rparr>"
    unfolding c [symmetric] by (rule pix; simp)+
  with v out show ?thesis by simp
qed

text \<open>
  Claim C7, as stated: the reads stay inside the array, the painting stays inside the
  image, and on a 3 by 3 image with block size 2 the partial blocks take the colour of
  the source pixel at their top-left corner. The first two hold. The colour is that of the
  buffer \<open>getImageData\<close> hands back: on the 3 by 3 image with bytes 0 to 35 the
  bottom-right block, the single pixel (32, 33, 34, 35), comes out as (29, 36, 36, 255).
\<close>

theorem pixelate_partial_block_translucent_corner:
  "valid_source \<lparr>width = 3, height = 3,
      data = [0, 1, 2, 3, 4, 5, 6, 7, 8, 9, 10, 11,
              12, 13, 14, 15, 16, 17, 18, 19, 20, 21, 22, 23,
              24, 25, 26, 27, 28, 29, 30, 31, 32, 33, 34, 35]\<rparr> \<and>
   \<not> ((2::int) dvd int 3 \<and> (2::int) dvd int 3) \<and>
   pixelate \<lparr>width = 3, height = 3,
      data = [0, 1, 2, 3, 4, 5, 6, 7, 8, 9, 10, 11,
              12, 13, 14, 15, 16, 17, 18, 19, 20, 21, 22, 23,
              24, 25, 26, 27, 28, 29, 30, 31, 32, 33, 34, 35]\<rparr> 2 =
     Some (Inr \<lparr>width = 3, height = 3,
      data = [0, 0, 0, 255, 0, 0, 0, 255, 0, 0, 0, 255,
              0, 0, 0, 255, 0, 0, 0, 255, 0, 0, 0, 255,
              28, 28, 28, 255, 28, 28, 28, 255, 29, 36, 36, 255]\<rparr>) \<and>
   red (pixel_at \<lparr>width = 3, height = 3,
      data = [0, 0, 0, 255, 0, 0, 0, 255, 0, 0, 0, 255,
              0, 0, 0, 255, 0, 0, 0, 255, 0, 0, 0, 255,
              28, 28, 28, 255, 28, 28, 28, 255, 29, 36, 36, 255]\<rparr> 2 2) \<noteq>
     red (pixel_at \<lparr>width = 3, height = 3,
      data = [0, 1, 2, 3, 4, 5, 6, 7, 8, 9, 10, 11,
              12, 13, 14, 15, 16, 17, 18, 19, 20, 21, 22, 23,
              24, 25, 26, 27, 28, 29, 30, 31, 32, 33, 34, 35]\<rparr> 2 2)"
  by (simp add: run_simps valid_source_def well_formed_def pixel_at_def)

text \<open>
  Claim C7, amended. For a valid source whose width or height is not a multiple of the
  block size (at least one): every index at which the byte array is read lies inside the
  array; the bitmap keeps its size, so nothing is painted outside the image; and every
  pixel, those of the partial blocks at the right and bottom edges included, takes the
  colour of the pixel at the top-left corner of its block in \<open>imageData\<close>, the buffer
  that \<open>getImageData\<close> returns for the drawn source. That pixel is the source pixel as
  the canvas hands it back: the source pixel itself when its alpha is 255. The witness
  is the 3 by 3 image with block size 2.
\<close>

theorem pixelate_partial_blocks:
  assumes "valid_source source" "1 \<le> blockSize"
    and "\<not> (blockSize dvd int (width source) \<and> blockSize dvd int (height source))"
  shows "\<exists>imageData st.
           getImageData (drawImage source (resize (width source) (height source) cv)) =
             Inr imageData \<and>
           render cv source blockSize = Some (Inr st) \<and>
           pixelate source blockSize = Some (Inr (bitmap st)) \<and>
           reads st \<noteq> [] \<and>
           (\<forall>j \<in> set (reads st). 0 \<le> j \<and> j < int (length (data imageData))) \<and>
           length (data imageData) = 4 * width source * height source \<and>
           width (bitmap st) = width source \<and> height (bitmap st) = height source \<and>
           length (data (bitmap st)) = 4 * width source * height source \<and>
           (\<forall>x < width source. \<forall>y < height source.
              pixel_at (bitmap st) x y =
                (pixel_at imageData (x - x mod nat blockSize) (y - y mod nat blockSize))
                  \<lparr>alpha := 255\<rparr> \<and>
              pixel_at imageData x y = canvas_pixel (pixel_at source x y) \<and>
              (alpha (pixel_at source (x - x mod nat blockSize) (y - y mod nat blockSize)) = 255
                 \<longrightarrow> pixel_at (bitmap st) x y =
                       pixel_at source (x - x mod nat blockSize) (y - y mod nat blockSize)))"
proof -
  let ?rb = "read_back source" and ?m = "nat blockSize"
  have wf: "well_formed source" using assms(1) by (simp add: valid_source_def)
  obtain st where st: "getImageData (drawImage source (resize (width source) (height source) cv)) = Inr ?rb"
    "render cv source blockSize = Some (Inr st)"
    "pixelate source blockSize = Some (Inr (bitmap st))" "blocks_of ?rb blockSize (bitmap st)"
    "reads_ok (data ?rb) st" "reads st \<noteq> []"
    by (rule sampled_pixels [OF assms(1,2), of cv])
  note b = blocks_ofD [OF st(4)]
  have len: "length (data ?rb) = 4 * width source * height source"
    using wf by (simp add: well_formed_def)
  have len': "length (data (bitmap st)) = 4 * width source * height source"
    using b(1-3) by (simp add: well_formed_def)
  have reads: "\<forall>j \<in> set (reads st). 0 \<le> j \<and> j < int (length (data ?rb))"
    using st(5) by (simp add: reads_ok_def)
  have pix: "pixel_at (bitmap st) x y = (pixel_at ?rb (x - x mod ?m) (y - y mod ?m))\<lparr>alpha := 255\<rparr>"
    and rb: "pixel_at ?rb x y = canvas_pixel (pixel_at source x y)"
    if "x < width source" "y < height source" for x y
    using b(4) [of x y] that pixel_at_read_back [OF wf that] by simp_all
  have same: "pixel_at (bitmap st) x y = pixel_at source (x - x mod ?m) (y - y mod ?m)"
    if xy: "x < width source" "y < height source"
      and a: "alpha (pixel_at source (x - x mod ?m) (y - y mod ?m)) = 255" for x y
  proof -
    have c: "x - x mod ?m < width source" "y - y mod ?m < height source" using xy by simp_all
    show ?thesis using pix [OF xy] rb [OF c] a by (simp add: canvas_pixel_opaque)
  qed
  show ?thesis
    using st(1-3,6) reads len len' b(1,2) pix rb same
    by (intro exI [of _ ?rb] exI [of _ st]) simp
qed

theorem pixelate_partial_blocks_witness:
  "valid_source \<lparr>width = 3, height = 3,
      data = [0, 1, 2, 3, 4, 5, 6, 7, 8, 9, 10, 11,
              12, 13, 14, 15, 16, 17, 18, 19, 20, 21, 22, 23,
              24, 25, 26, 27, 28, 29, 30, 31, 32, 33, 34, 35]\<rparr> \<and>
   (1::int) \<le> 2 \<and> \<not> ((2::int) dvd int 3 \<and> (2::int) dvd int 3) \<and>
   render \<lparr>width = 0, height = 0, data = []\<rparr>
     \<lparr>width = 3, height = 3,
      data = [0, 1, 2, 3, 4, 5, 6, 7, 8, 9, 10, 11,
              12, 13, 14, 15, 16, 17, 18, 19, 20, 21, 22, 23,
              24, 25, 26, 27, 28, 29, 30, 31, 32, 33, 34, 35]\<rparr> 2 =
     Some (Inr \<lparr>bitmap = \<lparr>width = 3, height = 3,
      data = [0, 0, 0, 255, 0, 0, 0, 255, 0, 0, 0, 255,
              0, 0, 0, 255, 0, 0, 0, 255, 0, 0, 0, 255,
              28, 28, 28, 255, 28, 28, 28, 255, 29, 36, 36, 255]\<rparr>,
               fillStyle = (29, 36, 36),
               reads = [0, 1, 2, 8, 9, 10, 24, 25, 26, 32, 33, 34]\<rparr>) \<and>
   pixelate \<lparr>width = 3, height = 3,
      data = [0, 1, 2, 3, 4, 5, 6, 7, 8, 9, 10, 11,
              12, 13, 14, 15, 16, 17, 18, 19, 20, 21, 22, 23,
              24, 25, 26, 27, 28, 29, 30, 31, 32, 33, 34, 35]\<rparr> 2 =
     Some (Inr \<lparr>width = 3, height = 3,
      data = [0, 0, 0, 255, 0, 0, 0, 255, 0, 0, 0, 255,
              0, 0, 0, 255, 0, 0, 0, 255, 0, 0, 0, 255,
              28, 28, 28, 255, 28, 28, 28, 255, 29, 36, 36, 255]\<rparr>)"
proof -
  let ?S = "\<lparr>width = 3, height = 3,
      data = [0, 1, 2, 3, 4, 5, 6, 7, 8, 9, 10, 11,
              12, 13, 14, 15, 16, 17, 18, 19, 20, 21, 22, 23,
              24, 25, 26, 27, 28, 29, 30, 31, 32, 33, 34, 35]\<rparr> :: ImageData"
  let ?cv = "\<lparr>width = 0, height = 0, data = []\<rparr> :: ImageData"
  let ?B = "\<lparr>width = 3, height = 3,
      data = [0, 0, 0, 255, 0, 0, 0, 255, 0, 0, 0, 255,
              0, 0, 0, 255, 0, 0, 0, 255, 0, 0, 0, 255,
              28, 28, 28, 255, 28, 28, 28, 255, 29, 36, 36, 255]\<rparr> :: ImageData"
  let ?ST = "\<lparr>bitmap = ?B, fillStyle = (29, 36, 36),
               reads = [0, 1, 2, 8, 9, 10, 24, 25, 26, 32, 33, 34]\<rparr> :: ctx2d"
  have v: "valid_source ?S" by (simp add: valid_source_def well_formed_def)
  have n: "(1::int) \<le> 2" by simp
  have p: "\<not> ((2::int) dvd int (width ?S) \<and> (2::int) dvd int (height ?S))" by simp
  have run: "render ?cv ?S 2 = Some (Inr ?ST)"
    by (simp add: run_simps)
  from pixelate_partial_blocks [OF v n p, of ?cv]
  obtain st where "render ?cv ?S 2 = Some (Inr st)" "pixelate ?S 2 = Some (Inr (bitmap st))"
    by blast
  with run have "pixelate ?S 2 = Some (Inr ?B)" by simp
  with v n run show ?thesis by simp
qed

end
